theory Spec2Isabelle
  imports
    Complex_Main
    "HOL-Library.Char_ord"
    "HOL-Library.List_Lexorder"
    "HOL-Library.Product_Lexorder"
    "HOL-Library.Sublist"
    "HOL-Library.Multiset"
begin

section \<open>Python values and their textual forms\<close>

text \<open>
  The scripts read spans from JSON lines, so a cell of a row, a metadata entry and a
  message are JSON values: \<open>None\<close>, booleans, integers, strings, lists and dicts with
  string keys. A dict is kept as the list of its items in insertion order; Python's
  dicts have no repeated key, and the theorems that need it say \<open>distinct (map fst d)\<close>.
  Strings are lists of \<open>char\<close>, read as code points below 256. Floating-point
  values are left out of the value type.
\<close>

datatype pyval =
    PNone
  | PBool bool
  | PInt int
  | PStr string
  | PList "pyval list"
  | PDict "(string \<times> pyval) list"

text \<open>Truthiness, as \<open>if v:\<close> tests it.\<close>

fun py_truthy :: "pyval \<Rightarrow> bool" where
  "py_truthy PNone = False"
| "py_truthy (PBool b) = b"
| "py_truthy (PInt i) = (i \<noteq> 0)"
| "py_truthy (PStr s) = (s \<noteq> [])"
| "py_truthy (PList xs) = (xs \<noteq> [])"
| "py_truthy (PDict d) = (d \<noteq> [])"

text \<open>\<open>sep.join(parts)\<close>.\<close>

fun join :: "string \<Rightarrow> string list \<Rightarrow> string" where
  "join sep [] = []"
| "join sep [p] = p"
| "join sep (p # q # ps) = p @ sep @ join sep (q # ps)"

text \<open>Decimal and hexadecimal digits.\<close>

definition digit_char :: "nat \<Rightarrow> char" where
  "digit_char d = char_of (48 + d)"

definition hex_char :: "nat \<Rightarrow> char" where
  "hex_char d = (if d < 10 then char_of (48 + d) else char_of (87 + d))"

function show_nat :: "nat \<Rightarrow> string" where
  "show_nat n = (if n < 10 then [digit_char n] else show_nat (n div 10) @ [digit_char (n mod 10)])"
  by pat_completeness auto
termination
  by (relation "measure id") auto

declare show_nat.simps [simp del]

definition show_int :: "int \<Rightarrow> string" where
  "show_int i = (if i < 0 then CHR ''-'' # show_nat (nat (- i)) else show_nat (nat i))"

text \<open>
  \<open>json.dumps\<close> of a string with the default \<open>ensure_ascii=True\<close>: the quote and
  the backslash are escaped with a backslash, the control characters with a short
  escape have it, and every other character outside \<open>' '..'~'\<close> becomes
  \<open>\u00XX\<close>.
\<close>

definition json_escape_char :: "char \<Rightarrow> string" where
  "json_escape_char c =
     (if c = CHR 0x22 then [CHR 0x5C, CHR 0x22]
      else if c = CHR 0x5C then [CHR 0x5C, CHR 0x5C]
      else if c = CHR 0x0A then [CHR 0x5C, CHR ''n'']
      else if c = CHR 0x0D then [CHR 0x5C, CHR ''r'']
      else if c = CHR 0x09 then [CHR 0x5C, CHR ''t'']
      else if c = CHR 0x08 then [CHR 0x5C, CHR ''b'']
      else if c = CHR 0x0C then [CHR 0x5C, CHR ''f'']
      else if (of_char c :: nat) < 32 \<or> 126 < (of_char c :: nat)
        then [CHR 0x5C, CHR ''u'', CHR ''0'', CHR ''0'',
              hex_char (of_char c div 16), hex_char (of_char c mod 16)]
      else [c])"

definition json_quote :: "string \<Rightarrow> string" where
  "json_quote s = CHR 0x22 # concat (map json_escape_char s) @ [CHR 0x22]"

text \<open>
  \<open>json.dumps(v, sort_keys=True)\<close> with the default separators \<open>', '\<close> and
  \<open>': '\<close>. The items of every dict, nested ones too, are written in the order of
  their keys.
\<close>

fun json_dumps :: "pyval \<Rightarrow> string" where
  "json_dumps PNone = ''null''"
| "json_dumps (PBool b) = (if b then ''true'' else ''false'')"
| "json_dumps (PInt i) = show_int i"
| "json_dumps (PStr s) = json_quote s"
| "json_dumps (PList xs) = ''['' @ join '', '' (map json_dumps xs) @ '']''"
| "json_dumps (PDict d) =
     ''{'' @ join '', '' (map (\<lambda>kv. json_quote (fst kv) @ '': '' @ json_dumps (snd kv))
                              (sort_key fst d)) @ ''}''"

text \<open>
  \<open>repr\<close> of a string: single quotes unless the string holds a single quote and no
  double quote; the backslash and the chosen quote are escaped, tab, newline and
  carriage return have their short escapes, and the other characters that are not
  printable become \<open>\xNN\<close>.
\<close>

definition repr_quote :: "string \<Rightarrow> char" where
  "repr_quote s = (if CHR 0x27 \<in> set s \<and> CHR 0x22 \<notin> set s then CHR 0x22 else CHR 0x27)"

definition repr_escape_char :: "char \<Rightarrow> char \<Rightarrow> string" where
  "repr_escape_char q c =
     (if c = q \<or> c = CHR 0x5C then [CHR 0x5C, c]
      else if c = CHR 0x09 then [CHR 0x5C, CHR ''t'']
      else if c = CHR 0x0A then [CHR 0x5C, CHR ''n'']
      else if c = CHR 0x0D then [CHR 0x5C, CHR ''r'']
      else if (of_char c :: nat) < 32 \<or> (127 \<le> (of_char c :: nat) \<and> (of_char c :: nat) \<le> 160)
              \<or> (of_char c :: nat) = 173
        then [CHR 0x5C, CHR ''x'', hex_char (of_char c div 16), hex_char (of_char c mod 16)]
      else [c])"

definition repr_str :: "string \<Rightarrow> string" where
  "repr_str s = repr_quote s # concat (map (repr_escape_char (repr_quote s)) s) @ [repr_quote s]"

fun py_repr :: "pyval \<Rightarrow> string" where
  "py_repr PNone = ''None''"
| "py_repr (PBool b) = (if b then ''True'' else ''False'')"
| "py_repr (PInt i) = show_int i"
| "py_repr (PStr s) = repr_str s"
| "py_repr (PList xs) = ''['' @ join '', '' (map py_repr xs) @ '']''"
| "py_repr (PDict d) =
     ''{'' @ join '', '' (map (\<lambda>kv. repr_str (fst kv) @ '': '' @ py_repr (snd kv)) d) @ ''}''"

text \<open>\<open>str(v)\<close>: the string itself for a string, \<open>repr\<close> for everything else.\<close>

fun py_str :: "pyval \<Rightarrow> string" where
  "py_str (PStr s) = s"
| "py_str v = py_repr v"

section \<open>Containment and diff analysis (compare_spans.py)\<close>

text \<open>
  Both functions first turn every message into a comparable string:
  \<open>json.dumps(m, sort_keys=True) if isinstance(m, dict) else str(m)\<close>.
\<close>

fun comparable :: "pyval \<Rightarrow> string" where
  "comparable (PDict d) = json_dumps (PDict d)"
| "comparable v = py_str v"

text \<open>\<open>(msgs or [])\<close>: \<open>None\<close> and the empty list both give the empty list.\<close>

fun or_empty :: "'a list option \<Rightarrow> 'a list" where
  "or_empty None = []"
| "or_empty (Some xs) = xs"

record comparison =
  total_previous :: nat
  total_current :: nat
  duplicated_count :: nat
  new_count :: nat
  overlap_percentage :: rat
  duplicated_messages :: "string list"
  new_messages :: "string list"

definition compare_messages :: "pyval list option \<Rightarrow> pyval list option \<Rightarrow> comparison" where
  "compare_messages msg1 msg2 =
     (let msg1_str = map comparable (or_empty msg1);
          msg2_str = map comparable (or_empty msg2);
          duplicates = filter (\<lambda>m. m \<in> set msg2_str) msg1_str;
          new_msgs = filter (\<lambda>m. m \<notin> set msg1_str) msg2_str;
          overlap_pct = (if msg2_str \<noteq> []
                         then of_nat (length duplicates) / of_nat (length msg2_str) * 100
                         else 0)
      in \<lparr> total_previous = length msg1_str,
           total_current = length msg2_str,
           duplicated_count = length duplicates,
           new_count = length new_msgs,
           overlap_percentage = overlap_pct,
           duplicated_messages = duplicates,
           new_messages = new_msgs \<rparr>)"

record containment =
  is_complete_subset :: bool
  total_earlier :: nat
  contained_count :: nat
  missing_count :: nat
  containment_percentage :: rat
  missing_messages :: "string list"

definition check_complete_containment ::
    "pyval list option \<Rightarrow> pyval list option \<Rightarrow> containment" where
  "check_complete_containment earlier_msgs later_msgs =
     (let earlier_str = map comparable (or_empty earlier_msgs);
          later_str = map comparable (or_empty later_msgs);
          contained = filter (\<lambda>m. m \<in> set later_str) earlier_str;
          missing = filter (\<lambda>m. m \<notin> set later_str) earlier_str;
          containment_pct = (if earlier_str \<noteq> []
                             then of_nat (length contained) / of_nat (length earlier_str) * 100
                             else 0)
      in \<lparr> is_complete_subset = (length missing = 0 \<and> length earlier_str > 0),
           total_earlier = length earlier_str,
           contained_count = length contained,
           missing_count = length missing,
           containment_percentage = containment_pct,
           missing_messages = missing \<rparr>)"

text \<open>The two message lists of the end-to-end scenario.\<close>

definition msg_user_hi :: pyval where
  "msg_user_hi = PDict [(''role'', PStr ''user''), (''content'', PStr ''hi'')]"

definition msg_assistant_hello :: pyval where
  "msg_assistant_hello = PDict [(''role'', PStr ''assistant''), (''content'', PStr ''hello'')]"

text \<open>\<open>isinstance(m, dict)\<close>.\<close>

fun is_dict :: "pyval \<Rightarrow> bool" where
  "is_dict (PDict d) = True"
| "is_dict v = False"

text \<open>
  Two values are the same up to key order when they differ at most in the order in
  which dicts, at any depth, hold their items: lists agree element by element, dicts
  have the same keys (none twice) and under every key values that are again the same
  up to key order, and everything else is equal.
\<close>

fun same_up_to_key_order :: "pyval \<Rightarrow> pyval \<Rightarrow> bool" where
  "same_up_to_key_order (PList xs) (PList ys) = list_all2 same_up_to_key_order xs ys"
| "same_up_to_key_order (PDict d1) (PDict d2) =
     (distinct (map fst d1) \<and> distinct (map fst d2) \<and> fst ` set d1 = fst ` set d2
      \<and> (\<forall>kv1\<in>set d1. \<forall>kv2\<in>set d2.
            fst kv1 = fst kv2 \<longrightarrow> same_up_to_key_order (snd kv1) (snd kv2)))"
| "same_up_to_key_order a b = (a = b)"

text \<open>A record whose nested record is ordered differently in two messages.\<close>

definition msg_nested :: pyval where
  "msg_nested = PDict [(''role'', PStr ''user''),
                       (''usage'', PDict [(''input'', PInt 3), (''output'', PInt 5)])]"

definition msg_nested_reordered :: pyval where
  "msg_nested_reordered = PDict [(''usage'', PDict [(''output'', PInt 5), (''input'', PInt 3)]),
                                 (''role'', PStr ''user'')]"

section \<open>Spans\<close>

text \<open>
  A row of the span table. \<open>start_time\<close> and \<open>end_time\<close> are timestamps in
  nanoseconds, \<open>None\<close> for \<open>NaT\<close>; \<open>parent_id\<close> is \<open>None\<close> for a missing
  value. \<open>trace_id\<close> records what \<open>row.get('context.trace_id', 'unknown')\<close>
  can meet: a table without the column, a missing value, or an identifier.
\<close>

datatype trace_cell = NoColumn | Missing | TraceId string

record span =
  span_id :: string
  trace_id :: trace_cell
  parent_id :: "string option"
  start_time :: "int option"
  end_time :: "int option"
  kind :: string
  name :: string
  metadata :: pyval

section \<open>Temporal segmenter (reconstruct_sessions.py)\<close>

text \<open>
  \<open>(start_time - last_end_time).total_seconds()\<close>: the difference in seconds, as an
  exact rational where pandas has a float; with \<open>NaT\<close> on either side the difference
  is \<open>NaT\<close> and its \<open>total_seconds()\<close> is \<open>nan\<close>, here \<open>None\<close>.
\<close>

fun total_seconds_between :: "int option \<Rightarrow> int option \<Rightarrow> rat option" where
  "total_seconds_between (Some s) (Some e) = Some (of_int (s - e) / 1000000000)"
| "total_seconds_between s e = None"

text \<open>\<open>gap > gap_threshold_seconds\<close>; a comparison with \<open>nan\<close> is false.\<close>

fun gap_exceeds :: "rat option \<Rightarrow> int \<Rightarrow> bool" where
  "gap_exceeds (Some g) thr = (g > of_int thr)"
| "gap_exceeds None thr = False"

text \<open>
  The table the segmenter gets. \<open>load_trace_data\<close> converts \<open>start_time\<close> and
  \<open>end_time\<close> only when the table has these columns, so a table may lack one; then
  \<open>row['start_time']\<close> or \<open>row['end_time']\<close> raises \<open>KeyError\<close>. The index labels
  of the table are taken to be unique, so that \<open>df.loc[current_conversation]\<close> is the
  list of the rows collected.
\<close>

datatype py_error = KeyError | TypeError | AttributeError

record trace_table =
  has_start_time :: bool
  has_end_time :: bool
  table_rows :: "span list"

definition row_start_time :: "trace_table \<Rightarrow> span \<Rightarrow> py_error + int option" where
  "row_start_time df row = (if has_start_time df then Inr (start_time row) else Inl KeyError)"

definition row_end_time :: "trace_table \<Rightarrow> span \<Rightarrow> py_error + int option" where
  "row_end_time df row = (if has_end_time df then Inr (end_time row) else Inl KeyError)"

text \<open>
  The loop of \<open>detect_conversation_boundaries\<close> keeps the conversations closed so
  far, the rows of the current one and \<open>last_end_time\<close>, which is Python's \<open>None\<close>
  (here the outer \<open>None\<close>) before the first row and the \<open>end_time\<close> of the row
  before afterwards. \<open>boundary_step\<close> is the body of the loop for a row whose
  \<open>start_time\<close> and \<open>end_time\<close> have been read.
\<close>

type_synonym boundary_state = "span list list \<times> span list \<times> int option option"

fun boundary_step ::
    "int \<Rightarrow> boundary_state \<Rightarrow> int option \<Rightarrow> int option \<Rightarrow> span \<Rightarrow> boundary_state" where
  "boundary_step thr (conversations, current, None) start_time_v end_time_v row =
     (conversations, current @ [row], Some end_time_v)"
| "boundary_step thr (conversations, current, Some last_end_time) start_time_v end_time_v row =
     (if gap_exceeds (total_seconds_between start_time_v last_end_time) thr
      then ((if current \<noteq> [] then conversations @ [current] else conversations),
            [row], Some end_time_v)
      else (conversations, current @ [row], Some end_time_v))"

text \<open>
  The loop over the rows: \<open>row['start_time']\<close> is read at the top of the body and
  \<open>row['end_time']\<close> at its end; either read ends the function with \<open>KeyError\<close> when
  the column is not there.
\<close>

fun boundary_loop ::
    "trace_table \<Rightarrow> int \<Rightarrow> boundary_state \<Rightarrow> span list \<Rightarrow> py_error + boundary_state" where
  "boundary_loop df thr state [] = Inr state"
| "boundary_loop df thr state (row # rest) =
     (case row_start_time df row of
        Inl e \<Rightarrow> Inl e
      | Inr start_time_v \<Rightarrow>
          (case row_end_time df row of
             Inl e \<Rightarrow> Inl e
           | Inr end_time_v \<Rightarrow>
               boundary_loop df thr (boundary_step thr state start_time_v end_time_v row) rest))"

text \<open>After the loop the current conversation is added when it is not empty.\<close>

fun final_conversations :: "boundary_state \<Rightarrow> span list list" where
  "final_conversations (conversations, current, last_end) =
     (if current \<noteq> [] then conversations @ [current] else conversations)"

definition detect_conversation_boundaries ::
    "trace_table \<Rightarrow> int \<Rightarrow> py_error + span list list" where
  "detect_conversation_boundaries df gap_threshold_seconds =
     (case boundary_loop df gap_threshold_seconds ([], [], None) (table_rows df) of
        Inl e \<Rightarrow> Inl e
      | Inr state \<Rightarrow> Inr (final_conversations state))"

text \<open>
  On a table that has both columns the loop is a fold of \<open>row_step\<close> over the rows,
  and \<open>conversations_of\<close> is what the function then returns.
\<close>

definition row_step :: "int \<Rightarrow> boundary_state \<Rightarrow> span \<Rightarrow> boundary_state" where
  "row_step thr state row = boundary_step thr state (start_time row) (end_time row) row"

definition conversations_of :: "span list \<Rightarrow> int \<Rightarrow> span list list" where
  "conversations_of rows thr = final_conversations (foldl (row_step thr) ([], [], None) rows)"

definition timed_table :: "span list \<Rightarrow> trace_table" where
  "timed_table rows = \<lparr> has_start_time = True, has_end_time = True, table_rows = rows \<rparr>"

text \<open>The test of the loop for a row \<open>c\<close> that follows the row \<open>p\<close>.\<close>

definition new_conversation_between :: "int \<Rightarrow> span \<Rightarrow> span \<Rightarrow> bool" where
  "new_conversation_between thr p c =
     gap_exceeds (total_seconds_between (start_time c) (end_time p)) thr"

text \<open>
  A sequence is uniform with step \<open>d\<close> when every span starts exactly \<open>d\<close> seconds
  after the end of the span before it (both timestamps present).
\<close>

fun starts_after :: "int \<Rightarrow> span \<Rightarrow> span \<Rightarrow> bool" where
  "starts_after d p c =
     (case (start_time c, end_time p) of
        (Some s, Some e) \<Rightarrow> s - e = d * 1000000000
      | _ \<Rightarrow> False)"

fun uniform_sequence :: "int \<Rightarrow> span list \<Rightarrow> bool" where
  "uniform_sequence d [] = True"
| "uniform_sequence d [x] = True"
| "uniform_sequence d (p # c # rest) = (starts_after d p c \<and> uniform_sequence d (c # rest))"

text \<open>Concrete spans for the examples.\<close>

definition mk_span :: "string \<Rightarrow> string option \<Rightarrow> int option \<Rightarrow> int option \<Rightarrow> span" where
  "mk_span i p s e =
     \<lparr> span_id = i, trace_id = TraceId ''T1'', parent_id = p, start_time = s, end_time = e,
       kind = ''LLM'', name = ''call'', metadata = PNone \<rparr>"

definition span_a :: span where
  "span_a = mk_span ''a'' None (Some 0) (Some 1000000000)"

definition span_soon :: span where
  "span_soon = mk_span ''b'' None (Some 2000000000) (Some 3000000000)"

definition span_late :: span where
  "span_late = mk_span ''c'' None (Some 302000000000) (Some 303000000000)"

definition span_no_start :: span where
  "span_no_start = mk_span ''d'' None None (Some 1000000000)"

definition span_no_end :: span where
  "span_no_end = mk_span ''e'' None (Some 0) None"

section \<open>Session id resolution and grouping (query_traces.py)\<close>

text \<open>
  \<open>s.find(sep)\<close>: the index of the leftmost occurrence of \<open>sep\<close> in \<open>s\<close>, \<open>None\<close>
  for Python's \<open>-1\<close>.
\<close>

fun str_find :: "string \<Rightarrow> string \<Rightarrow> nat option" where
  "str_find sep [] = (if sep = [] then Some 0 else None)"
| "str_find sep (c # cs) =
     (if prefix sep (c # cs) then Some 0 else map_option Suc (str_find sep cs))"

text \<open>
  \<open>s.split(sep)\<close>: cut at the leftmost occurrence of \<open>sep\<close> and go on behind it.
  Python rejects the empty separator with a \<open>ValueError\<close>; no call of the scripts has
  one (the separator is always \<open>'session_'\<close>), and the model returns \<open>[s]\<close> there.
\<close>

function py_split :: "string \<Rightarrow> string \<Rightarrow> string list" where
  "py_split sep s =
     (if sep = [] then [s]
      else case str_find sep s of
             None \<Rightarrow> [s]
           | Some i \<Rightarrow> take i s # py_split sep (drop (i + length sep) s))"
  by pat_completeness auto
termination
proof (relation "measure (\<lambda>(sep, s). length s)")
  show "wf (measure (\<lambda>(sep, s). length s))" by simp
next
  fix sep s :: string and i :: nat
  assume "sep \<noteq> []" "str_find sep s = Some i"
  then have "s \<noteq> []" "0 < length sep" by (cases s; simp)+
  then show "((sep, drop (i + length sep) s), (sep, s)) \<in> measure (\<lambda>(sep, s). length s)"
    by simp
qed

declare py_split.simps [simp del]

text \<open>\<open>d.get(k, default)\<close> on a dict.\<close>

definition dict_get :: "(string \<times> pyval) list \<Rightarrow> string \<Rightarrow> pyval \<Rightarrow> pyval" where
  "dict_get d k dflt = (case map_of d k of None \<Rightarrow> dflt | Some v \<Rightarrow> v)"

text \<open>
  The test and the result that \<open>extract_session_id\<close> repeats for each place it looks
  at: \<open>if user_id and 'session_' in str(user_id): return str(user_id).split('session_')[-1]\<close>.
  \<open>None\<close> here means that the function goes on to the next place. The list a split
  returns is never empty, so \<open>[-1]\<close> is its last element.
\<close>

definition session_from :: "pyval \<Rightarrow> string option" where
  "session_from user_id =
     (if py_truthy user_id \<and> sublist ''session_'' (py_str user_id)
      then Some (last (py_split ''session_'' (py_str user_id)))
      else None)"

text \<open>
  The three places, in the order of the source: \<open>user_id\<close>,
  \<open>user_api_key_end_user_id\<close>, and \<open>user_id\<close> under \<open>requester_metadata\<close> when
  that is a dict (\<open>metadata.get('requester_metadata', {})\<close>).
\<close>

definition metadata_session_id :: "(string \<times> pyval) list \<Rightarrow> string option" where
  "metadata_session_id md =
     (case session_from (dict_get md ''user_id'' PNone) of
        Some s \<Rightarrow> Some s
      | None \<Rightarrow>
          (case session_from (dict_get md ''user_api_key_end_user_id'' PNone) of
             Some s \<Rightarrow> Some s
           | None \<Rightarrow>
               (case dict_get md ''requester_metadata'' (PDict []) of
                  PDict req_meta \<Rightarrow> session_from (dict_get req_meta ''user_id'' PNone)
                | _ \<Rightarrow> None)))"

text \<open>
  \<open>row.get('context.trace_id', 'unknown')\<close>: the default only when the table has no
  such column; a missing value (\<open>None\<close> or \<open>NaN\<close>) is returned as it is, here \<open>None\<close>.
\<close>

fun row_trace_id :: "span \<Rightarrow> string option" where
  "row_trace_id row =
     (case trace_id row of
        NoColumn \<Rightarrow> Some ''unknown''
      | Missing \<Rightarrow> None
      | TraceId t \<Rightarrow> Some t)"

text \<open>
  \<open>extract_session_id(row)\<close>: the trace id when the metadata is empty or not a dict,
  and when none of the three places holds a session id.
\<close>

definition extract_session_id :: "span \<Rightarrow> string option" where
  "extract_session_id row =
     (case metadata row of
        PDict md \<Rightarrow>
          (if md = [] then row_trace_id row
           else case metadata_session_id md of
                  Some s \<Rightarrow> Some s
                | None \<Rightarrow> row_trace_id row)
      | _ \<Rightarrow> row_trace_id row)"

text \<open>
  \<open>group_by_session(df)\<close>: \<open>df.groupby('session_id')\<close> goes through the distinct keys
  in sorted order, leaves out the rows whose key is missing, and keeps the rows of a
  group in the order of the table; the result is a dict from the key to the rows of
  its group, here the list of its items.
\<close>

definition group_by_session :: "span list \<Rightarrow> (string \<times> span list) list" where
  "group_by_session df =
     (if df = [] then []
      else map (\<lambda>session_id. (session_id, filter (\<lambda>row. extract_session_id row = Some session_id) df))
             (sort (remdups (List.map_filter extract_session_id df))))"



text \<open>
  What the metadata lookups of \<open>extract_session_id\<close> find: \<open>None\<close> where the function
  falls back to the trace id.
\<close>

definition resolved_session_id :: "pyval \<Rightarrow> string option" where
  "resolved_session_id m = (case m of PDict md \<Rightarrow> metadata_session_id md | _ \<Rightarrow> None)"

text \<open>
  The grouping key as the specification words it: the resolved session id when it is
  present and not empty, the trace id otherwise. It is compared with
  \<open>extract_session_id\<close> below.
\<close>

definition claimed_session_key :: "span \<Rightarrow> string option" where
  "claimed_session_key row =
     (case resolved_session_id (metadata row) of
        Some s \<Rightarrow> if s \<noteq> [] then Some s else row_trace_id row
      | None \<Rightarrow> row_trace_id row)"

definition span_empty_session :: span where
  "span_empty_session = (mk_span ''s1'' None None None)
     \<lparr> metadata := PDict [(''user_id'', PStr ''user_session_'')] \<rparr>"

definition span_no_trace :: span where
  "span_no_trace = (mk_span ''s2'' None None None) \<lparr> trace_id := Missing \<rparr>"

definition span_with_session :: span where
  "span_with_session = (mk_span ''s3'' None None None)
     \<lparr> metadata := PDict [(''user_api_key_end_user_id'', PStr ''x_session_9''),
                          (''user_id'', PStr ''abc_session_42'')] \<rparr>"

section \<open>Span tree builder (reconstruct_sessions.py, analyze_sessions.py)\<close>

text \<open>
  A line of the printed hierarchy. The text of a line is made from its span and its
  indentation (name, kind, the first characters of the id and the duration to two
  decimals); the model keeps the span and the indentation in its place.
\<close>

datatype tree_line = RootLine span | ChildLine nat span


text \<open>
  \<open>sort_values('start_time')\<close>: ascending, \<open>NaT\<close> last. Rows with the same
  \<open>start_time\<close> keep their order here; pandas leaves it open, and no theorem below
  depends on it.
\<close>

definition sort_values_start_time :: "span list \<Rightarrow> span list" where
  "sort_values_start_time rows =
     sort_key (\<lambda>r. case start_time r of None \<Rightarrow> (1 :: nat, 0 :: int) | Some t \<Rightarrow> (0, t)) rows"

text \<open>\<open>df[df['parent_id'] == root_span_id].sort_values('start_time')\<close>.\<close>

definition children_of :: "span list \<Rightarrow> string \<Rightarrow> span list" where
  "children_of df root_span_id =
     sort_values_start_time (filter (\<lambda>r. parent_id r = Some root_span_id) df)"

text \<open>
  The results of the recursive calls of a loop, put together: \<open>None\<close> as soon as one
  of them is \<open>None\<close>.
\<close>

fun collect :: "'a list option list \<Rightarrow> 'a list option" where
  "collect [] = Some []"
| "collect (None # rest) = None"
| "collect (Some ls # rest) = map_option (\<lambda>more. ls @ more) (collect rest)"

text \<open>
  \<open>build_span_tree(df, root_span_id, indent)\<close>: for every child, its line and then the
  lines of its own subtree. \<open>print_tree\<close> of \<open>analyze_sessions.py\<close> is the same
  recursion. The function has no test for a span met before, so the recursion need not
  end; the first argument is the recursion depth that is left, and \<open>None\<close> is Python's
  \<open>RecursionError\<close> when it is used up.
\<close>

fun build_span_tree :: "nat \<Rightarrow> span list \<Rightarrow> string \<Rightarrow> nat \<Rightarrow> tree_line list option" where
  "build_span_tree 0 df root_span_id indent = None"
| "build_span_tree (Suc depth) df root_span_id indent =
     collect (map (\<lambda>child. map_option (\<lambda>child_lines. ChildLine indent child # child_lines)
                            (build_span_tree depth df (span_id child) (indent + 1)))
                (children_of df root_span_id))"




text \<open>Spans for the examples: a self-parented span, a small tree, a cycle, an orphan.\<close>

definition span_self_parent :: span where
  "span_self_parent = mk_span ''a'' (Some ''a'') (Some 0) (Some 1000000000)"










text \<open>
  For the proofs: the \<open>n\<close>-th ancestor of a span, the level of a span (the number of
  steps to its root), the spans below an id, and the roots of a table.
\<close>

fun anc :: "span list \<Rightarrow> nat \<Rightarrow> span \<Rightarrow> span option" where
  "anc df 0 x = Some x"
| "anc df (Suc n) x =
     (case parent_id x of
        None \<Rightarrow> None
      | Some p \<Rightarrow> (case find (\<lambda>s. span_id s = p) df of
                    None \<Rightarrow> None
                  | Some y \<Rightarrow> anc df n y))"




section \<open>Properties of the containment and diff analysis\<close>

lemma filter_mem_self: "filter (\<lambda>m. m \<in> set xs) xs = xs"
  by (induction xs) (auto intro: filter_cong)

lemma filter_not_mem_self: "filter (\<lambda>m. m \<notin> set xs) xs = []"
  by (simp add: filter_empty_conv)

lemma filter_mem_replicate_cons:
  "filter (\<lambda>m. m \<in> set (replicate (Suc n) c @ ys)) xs = filter (\<lambda>m. m \<in> set (c # ys)) xs"
  by (rule filter_cong) auto

lemma length_filter_mem_le:
  assumes "distinct xs"
  shows "length (filter (\<lambda>m. m \<in> set ys) xs) \<le> length ys"
proof -
  have "length (filter (\<lambda>m. m \<in> set ys) xs) = card (set (filter (\<lambda>m. m \<in> set ys) xs))"
    using assms by (simp only: distinct_card [OF distinct_filter])
  also have "\<dots> \<le> card (set ys)"
    by (rule card_mono) auto
  also have "\<dots> \<le> length ys"
    by (rule card_length)
  finally show ?thesis .
qed

lemma length_filter_snoc_new:
  assumes "distinct xs" "c \<in> set xs" "c \<notin> set ys"
  shows "length (filter (\<lambda>m. m \<in> set (ys @ [c])) xs)
           = Suc (length (filter (\<lambda>m. m \<in> set ys) xs))"
  using assms
proof (induction xs)
  case Nil
  then show ?case by simp
next
  case (Cons a xs)
  show ?case
  proof (cases "a = c")
    case True
    then have "c \<notin> set xs" using Cons.prems by simp
    then have "filter (\<lambda>m. m \<in> set (ys @ [c])) xs = filter (\<lambda>m. m \<in> set ys) xs"
      by (intro filter_cong) auto
    then show ?thesis using True Cons.prems by simp
  next
    case False
    then show ?thesis using Cons by auto
  qed
qed

lemma length_filter_snoc_mono:
  "length (filter (\<lambda>m. m \<in> set ys) xs) \<le> length (filter (\<lambda>m. m \<in> set (ys @ [c])) xs)"
  by (induction xs) auto

lemma percentage_step:
  assumes "d \<le> n" "0 < n"
  shows "(of_nat d :: rat) / of_nat n * 100 \<le> of_nat (Suc d) / of_nat (Suc n) * 100"
proof -
  have "d * Suc n \<le> Suc d * n" using assms by simp
  then have "(of_nat (d * Suc n) :: rat) \<le> of_nat (Suc d * n)" by (rule of_nat_mono)
  then have "(of_nat d :: rat) * of_nat (Suc n) \<le> of_nat (Suc d) * of_nat n"
    by (simp only: of_nat_mult)
  then have "(of_nat d :: rat) / of_nat n \<le> of_nat (Suc d) / of_nat (Suc n)"
    using assms by (simp add: frac_le_eq field_simps del: of_nat_Suc)
  then show ?thesis by (rule mult_right_mono) simp
qed

text \<open>
  C4. For \<open>earlier = [{"role": "user", "content": "hi"}]\<close> and
  \<open>later = [{"role": "user", "content": "hi"}, {"role": "assistant", "content": "hello"}]\<close>,
  \<open>compare_messages\<close> reports one duplicated message, one new message and an
  overlap of 50 percent, and \<open>check_complete_containment\<close> of the first list in
  the second reports a complete subset.
\<close>

theorem scenario_overlap_and_containment:
  "duplicated_count (compare_messages (Some [msg_user_hi]) (Some [msg_user_hi, msg_assistant_hello])) = 1
   \<and> new_count (compare_messages (Some [msg_user_hi]) (Some [msg_user_hi, msg_assistant_hello])) = 1
   \<and> overlap_percentage
        (compare_messages (Some [msg_user_hi]) (Some [msg_user_hi, msg_assistant_hello])) = 50
   \<and> is_complete_subset
        (check_complete_containment (Some [msg_user_hi]) (Some [msg_user_hi, msg_assistant_hello]))"
  by code_simp

text \<open>
  C5. A non-empty sequence is fully contained in itself, with a containment of 100
  percent, every element counted and nothing missing; an empty earlier sequence
  (\<open>[]\<close> or \<open>None\<close>) is never reported as fully contained, whatever the later
  sequence is.
\<close>

theorem containment_self_and_empty:
  "(S \<noteq> [] \<longrightarrow>
      is_complete_subset (check_complete_containment (Some S) (Some S))
      \<and> containment_percentage (check_complete_containment (Some S) (Some S)) = 100
      \<and> contained_count (check_complete_containment (Some S) (Some S)) = length S
      \<and> missing_messages (check_complete_containment (Some S) (Some S)) = [])
   \<and> \<not> is_complete_subset (check_complete_containment (Some []) later)
   \<and> \<not> is_complete_subset (check_complete_containment None later)"
  by (simp add: check_complete_containment_def Let_def filter_mem_self filter_not_mem_self)

theorem containment_self_and_empty_witness:
  "[PStr ''hi''] \<noteq> []
   \<and> is_complete_subset (check_complete_containment (Some [PStr ''hi'']) (Some [PStr ''hi'']))
   \<and> containment_percentage
        (check_complete_containment (Some [PStr ''hi'']) (Some [PStr ''hi''])) = 100
   \<and> \<not> is_complete_subset (check_complete_containment (Some []) (Some [PStr ''hi'']))"
  using containment_self_and_empty [of "[PStr ''hi'']" "Some [PStr ''hi'']"] by simp

text \<open>
  C9, as the code has it. Appending an element of \<open>earlier\<close> to \<open>later\<close> never
  lowers the number of duplicated messages. It does not lower the overlap percentage
  when \<open>earlier\<close> holds no message twice (under the comparable form) and the appended
  element is not yet in \<open>later\<close>.
\<close>

theorem overlap_percentage_append_new:
  "(distinct (map comparable earlier) \<and> x \<in> set earlier
      \<and> comparable x \<notin> comparable ` set later
      \<longrightarrow> overlap_percentage (compare_messages (Some earlier) (Some later))
          \<le> overlap_percentage (compare_messages (Some earlier) (Some (later @ [x]))))
   \<and> duplicated_count (compare_messages (Some earlier) (Some later))
          \<le> duplicated_count (compare_messages (Some earlier) (Some (later @ [x])))"
proof (intro conjI impI)
  assume h: "distinct (map comparable earlier) \<and> x \<in> set earlier
      \<and> comparable x \<notin> comparable ` set later"
  let ?e = "map comparable earlier" and ?l = "map comparable later"
  let ?d = "length (filter (\<lambda>m. m \<in> set ?l) ?e)"
  have d': "length (filter (\<lambda>m. m \<in> set (?l @ [comparable x])) ?e) = Suc ?d"
    using h by (intro length_filter_snoc_new) auto
  have dn: "?d \<le> length ?l"
    using h by (intro length_filter_mem_le) simp
  show "overlap_percentage (compare_messages (Some earlier) (Some later))
          \<le> overlap_percentage (compare_messages (Some earlier) (Some (later @ [x])))"
  proof (cases "later = []")
    case True
    then show ?thesis by (simp add: compare_messages_def Let_def)
  next
    case False
    then have "0 < length ?l" by simp
    from percentage_step [OF dn this] d' False show ?thesis
      by (simp add: compare_messages_def Let_def del: of_nat_Suc)
  qed
next
  show "duplicated_count (compare_messages (Some earlier) (Some later))
          \<le> duplicated_count (compare_messages (Some earlier) (Some (later @ [x])))"
    using length_filter_snoc_mono
      [of "map comparable later" "map comparable earlier" "comparable x"]
    by (simp add: compare_messages_def Let_def)
qed

theorem overlap_percentage_append_new_witness:
  "distinct (map comparable [PStr ''a'', PStr ''b'']) \<and> PStr ''b'' \<in> set [PStr ''a'', PStr ''b'']
   \<and> comparable (PStr ''b'') \<notin> comparable ` set [PStr ''a'', PStr ''c'']
   \<and> overlap_percentage (compare_messages (Some [PStr ''a'', PStr ''b'']) (Some [PStr ''a'', PStr ''c'']))
       \<le> overlap_percentage
            (compare_messages (Some [PStr ''a'', PStr ''b'']) (Some ([PStr ''a'', PStr ''c''] @ [PStr ''b''])))"
  using overlap_percentage_append_new [of "[PStr ''a'', PStr ''b'']" "PStr ''b''" "[PStr ''a'', PStr ''c'']"]
  by simp

text \<open>
  C9, as the claim states it, fails: with \<open>earlier = ['a']\<close> and \<open>later = ['a']\<close>,
  appending \<open>'a'\<close> to \<open>later\<close> lowers the overlap from 100 to 50 percent; with
  \<open>earlier = ['a', 'a', 'a', 'b']\<close> and \<open>later = ['a']\<close>, appending \<open>'b'\<close> lowers it
  from 300 to 200 percent.
\<close>

theorem overlap_percentage_append_decreases:
  "overlap_percentage (compare_messages (Some [PStr ''a'']) (Some ([PStr ''a''] @ [PStr ''a''])))
     < overlap_percentage (compare_messages (Some [PStr ''a'']) (Some [PStr ''a'']))
   \<and> overlap_percentage
        (compare_messages (Some [PStr ''a'', PStr ''a'', PStr ''a'', PStr ''b''])
           (Some ([PStr ''a''] @ [PStr ''b''])))
     < overlap_percentage
        (compare_messages (Some [PStr ''a'', PStr ''a'', PStr ''a'', PStr ''b'']) (Some [PStr ''a'']))"
  by (simp add: compare_messages_def Let_def)

text \<open>
  C10. The overlap count runs over \<open>earlier\<close>: every element of \<open>earlier\<close> whose
  comparable form occurs in \<open>later\<close> counts once, so the count is additive over
  \<open>earlier\<close>, does not change with the number of copies \<open>later\<close> holds, and \<open>k\<close>
  copies of a message of \<open>later\<close> count \<open>k\<close> times. With two copies of a message
  in \<open>earlier\<close> and one in \<open>later\<close> the overlap percentage is 200.
\<close>

theorem overlap_counts_earlier_multiplicity:
  "duplicated_count (compare_messages (Some earlier) (Some later))
     = length (filter (\<lambda>m. comparable m \<in> comparable ` set later) earlier)
   \<and> duplicated_count (compare_messages (Some (e1 @ e2)) (Some later))
     = duplicated_count (compare_messages (Some e1) (Some later))
       + duplicated_count (compare_messages (Some e2) (Some later))
   \<and> duplicated_count (compare_messages (Some earlier) (Some (replicate (Suc n) x @ later)))
     = duplicated_count (compare_messages (Some earlier) (Some (x # later)))
   \<and> duplicated_count (compare_messages (Some (replicate k x)) (Some (x # later))) = k
   \<and> overlap_percentage (compare_messages (Some [PStr ''a'', PStr ''a'']) (Some [PStr ''a''])) = 200
   \<and> (100 :: rat)
       < overlap_percentage (compare_messages (Some [PStr ''a'', PStr ''a'']) (Some [PStr ''a'']))"
proof (intro conjI)
  show "duplicated_count (compare_messages (Some earlier) (Some later))
     = length (filter (\<lambda>m. comparable m \<in> comparable ` set later) earlier)"
    by (simp add: compare_messages_def Let_def filter_map comp_def)
  show "duplicated_count (compare_messages (Some (e1 @ e2)) (Some later))
     = duplicated_count (compare_messages (Some e1) (Some later))
       + duplicated_count (compare_messages (Some e2) (Some later))"
    by (simp add: compare_messages_def Let_def)
  show "duplicated_count (compare_messages (Some earlier) (Some (replicate (Suc n) x @ later)))
     = duplicated_count (compare_messages (Some earlier) (Some (x # later)))"
    using filter_mem_replicate_cons
      [of n "comparable x" "map comparable later" "map comparable earlier"]
    by (simp add: compare_messages_def Let_def del: replicate_Suc replicate.simps)
  show "duplicated_count (compare_messages (Some (replicate k x)) (Some (x # later))) = k"
    by (simp add: compare_messages_def Let_def)
  show "overlap_percentage (compare_messages (Some [PStr ''a'', PStr ''a'']) (Some [PStr ''a''])) = 200"
    by (simp add: compare_messages_def Let_def)
  show "(100 :: rat)
       < overlap_percentage (compare_messages (Some [PStr ''a'', PStr ''a'']) (Some [PStr ''a'']))"
    by (simp add: compare_messages_def Let_def)
qed

lemma sort_key_fst_reorder:
  assumes "distinct (map fst d1)" "distinct (map fst d2)" "set d1 = set d2"
  shows "sort_key fst d1 = sort_key fst d2"
proof (rule sort_key_inj_key_eq)
  have "distinct d1" "distinct d2" using assms by (auto simp: distinct_map)
  then have "mset d1 = mset d2" using assms(3) by (simp add: set_eq_iff_mset_eq_distinct)
  then show "mset d1 = mset (sort_key fst d2)" by simp
  show "inj_on fst (set d1)" using assms(1) by (simp add: distinct_map)
  show "sorted (map fst (sort_key fst d2))" by simp
qed

lemma comparable_reorder:
  assumes "distinct (map fst d1)" "distinct (map fst d2)" "set d1 = set d2"
  shows "comparable (PDict d1) = comparable (PDict d2)"
  using sort_key_fst_reorder [OF assms] by simp

lemma comparable_scalar: "\<not> is_dict a \<Longrightarrow> comparable a = py_str a"
  by (cases a) simp_all

lemma map_eq_by_relation:
  assumes "list_all2 R xs ys" "\<And>x y. x \<in> set xs \<Longrightarrow> y \<in> set ys \<Longrightarrow> R x y \<Longrightarrow> f x = f y"
  shows "map f xs = map f ys"
  using assms by (induction xs ys rule: list_all2_induct) auto

lemma sorted_items_related:
  assumes d1: "distinct (map fst d1)" and d2: "distinct (map fst d2)"
    and keys: "fst ` set d1 = fst ` set d2"
  shows "list_all2 (\<lambda>kv1 kv2. kv1 \<in> set d1 \<and> kv2 \<in> set d2 \<and> fst kv1 = fst kv2)
           (sort_key fst d1) (sort_key fst d2)"
proof -
  let ?s1 = "sort_key fst d1" and ?s2 = "sort_key fst d2"
  have "map fst ?s1 = map fst ?s2"
  proof (rule sorted_distinct_set_unique)
    show "sorted (map fst ?s1)" "sorted (map fst ?s2)" by simp_all
    have "mset (map fst ?s1) = mset (map fst d1)" "mset (map fst ?s2) = mset (map fst d2)"
      by simp_all
    then show "distinct (map fst ?s1)" "distinct (map fst ?s2)"
      using d1 d2 by (metis mset_eq_imp_distinct_iff)+
    show "set (map fst ?s1) = set (map fst ?s2)" using keys by simp
  qed
  then have len: "length ?s1 = length ?s2" and
    nth: "\<And>i. i < length ?s1 \<Longrightarrow> fst (?s1 ! i) = fst (?s2 ! i)"
    by (metis length_map, metis length_map nth_map)
  show ?thesis
  proof (rule list_all2_all_nthI [OF len])
    fix i assume i: "i < length ?s1"
    then have i2: "i < length ?s2" using len by simp
    have "?s1 ! i \<in> set ?s1" using i by (rule nth_mem)
    moreover have "?s2 ! i \<in> set ?s2" using i2 by (rule nth_mem)
    ultimately have "?s1 ! i \<in> set d1" "?s2 ! i \<in> set d2" by simp_all
    with nth [OF i] show "?s1 ! i \<in> set d1 \<and> ?s2 ! i \<in> set d2 \<and> fst (?s1 ! i) = fst (?s2 ! i)"
      by simp
  qed
qed

lemma json_dumps_key_order:
  "same_up_to_key_order a b \<Longrightarrow> json_dumps a = json_dumps b"
proof (induction a b rule: same_up_to_key_order.induct)
  case (1 xs ys)
  then have "map json_dumps xs = map json_dumps ys"
    by (intro map_eq_by_relation [of same_up_to_key_order]) simp_all
  then show ?case by simp
next
  case (2 d1 d2)
  let ?f = "\<lambda>kv. json_quote (fst kv) @ '': '' @ json_dumps (snd kv)"
  from "2.prems" have d: "distinct (map fst d1)" "distinct (map fst d2)"
    "fst ` set d1 = fst ` set d2"
    and same: "\<And>kv1 kv2. kv1 \<in> set d1 \<Longrightarrow> kv2 \<in> set d2 \<Longrightarrow> fst kv1 = fst kv2
        \<Longrightarrow> same_up_to_key_order (snd kv1) (snd kv2)"
    by auto
  have "map ?f (sort_key fst d1) = map ?f (sort_key fst d2)"
  proof (rule map_eq_by_relation [OF sorted_items_related [OF d]])
    fix kv1 kv2
    assume "kv1 \<in> set d1 \<and> kv2 \<in> set d2 \<and> fst kv1 = fst kv2"
    then have m: "kv1 \<in> set d1" "kv2 \<in> set d2" "fst kv1 = fst kv2" by simp_all
    from "2.IH" [OF m same [OF m]] m(3) show "?f kv1 = ?f kv2" by simp
  qed
  then show ?case by simp
qed simp_all

lemma same_up_to_key_order_refl_items:
  assumes "distinct (map fst d1)" "distinct (map fst d2)" "set d1 = set d2"
  shows "json_dumps (PDict d1) = json_dumps (PDict d2)"
  using sort_key_fst_reorder [OF assms] by simp

text \<open>
  C6. Two dicts that hold the same items in a different order, also when dicts nested
  in them are ordered differently, have the same comparable form, so both
  \<open>compare_messages\<close> and \<open>check_complete_containment\<close> give the same result
  whichever of the two stands in either list, and they count one as a duplicate of,
  and as contained in, the other. Two elements that are not dicts have the same
  comparable form exactly when \<open>str\<close> gives the same text for both, and both
  functions count them as the same message exactly then.
\<close>

theorem comparable_key_order_independent:
  "((distinct (map fst d1) \<and> distinct (map fst d2) \<and> set d1 = set d2)
      \<or> same_up_to_key_order (PDict d1) (PDict d2) \<longrightarrow>
      comparable (PDict d1) = comparable (PDict d2)
      \<and> compare_messages (Some (xs @ PDict d1 # ys)) later
          = compare_messages (Some (xs @ PDict d2 # ys)) later
      \<and> compare_messages earlier (Some (xs @ PDict d1 # ys))
          = compare_messages earlier (Some (xs @ PDict d2 # ys))
      \<and> check_complete_containment (Some (xs @ PDict d1 # ys)) later
          = check_complete_containment (Some (xs @ PDict d2 # ys)) later
      \<and> check_complete_containment earlier (Some (xs @ PDict d1 # ys))
          = check_complete_containment earlier (Some (xs @ PDict d2 # ys))
      \<and> duplicated_count (compare_messages (Some [PDict d1]) (Some [PDict d2])) = 1
      \<and> new_count (compare_messages (Some [PDict d1]) (Some [PDict d2])) = 0
      \<and> is_complete_subset (check_complete_containment (Some [PDict d1]) (Some [PDict d2])))
   \<and> (\<not> is_dict a \<and> \<not> is_dict b \<longrightarrow>
        (comparable a = comparable b \<longleftrightarrow> py_str a = py_str b)
        \<and> (duplicated_count (compare_messages (Some [a]) (Some [b])) = 1 \<longleftrightarrow> py_str a = py_str b)
        \<and> (new_count (compare_messages (Some [a]) (Some [b])) = 0 \<longleftrightarrow> py_str a = py_str b)
        \<and> (is_complete_subset (check_complete_containment (Some [a]) (Some [b]))
              \<longleftrightarrow> py_str a = py_str b))"
proof (intro conjI impI)
  assume h: "(distinct (map fst d1) \<and> distinct (map fst d2) \<and> set d1 = set d2)
      \<or> same_up_to_key_order (PDict d1) (PDict d2)"
  then have "json_dumps (PDict d1) = json_dumps (PDict d2)"
    using same_up_to_key_order_refl_items [of d1 d2] json_dumps_key_order [of "PDict d1" "PDict d2"]
    by blast
  then have eq: "comparable (PDict d1) = comparable (PDict d2)" by simp
  then have m: "map comparable (xs @ PDict d1 # ys) = map comparable (xs @ PDict d2 # ys)"
    by simp
  show "comparable (PDict d1) = comparable (PDict d2)" by (rule eq)
  show "compare_messages (Some (xs @ PDict d1 # ys)) later
          = compare_messages (Some (xs @ PDict d2 # ys)) later"
    unfolding compare_messages_def or_empty.simps m ..
  show "compare_messages earlier (Some (xs @ PDict d1 # ys))
          = compare_messages earlier (Some (xs @ PDict d2 # ys))"
    unfolding compare_messages_def or_empty.simps m ..
  show "check_complete_containment (Some (xs @ PDict d1 # ys)) later
          = check_complete_containment (Some (xs @ PDict d2 # ys)) later"
    unfolding check_complete_containment_def or_empty.simps m ..
  show "check_complete_containment earlier (Some (xs @ PDict d1 # ys))
          = check_complete_containment earlier (Some (xs @ PDict d2 # ys))"
    unfolding check_complete_containment_def or_empty.simps m ..
  have m1: "map comparable [PDict d1] = map comparable [PDict d2]" using eq by simp
  show "duplicated_count (compare_messages (Some [PDict d1]) (Some [PDict d2])) = 1"
    unfolding compare_messages_def or_empty.simps m1 by (simp add: Let_def)
  show "new_count (compare_messages (Some [PDict d1]) (Some [PDict d2])) = 0"
    unfolding compare_messages_def or_empty.simps m1 by (simp add: Let_def)
  show "is_complete_subset (check_complete_containment (Some [PDict d1]) (Some [PDict d2]))"
    unfolding check_complete_containment_def or_empty.simps m1 by (simp add: Let_def)
next
  assume h: "\<not> is_dict a \<and> \<not> is_dict b"
  then have c: "comparable a = py_str a" "comparable b = py_str b"
    by (simp_all add: comparable_scalar)
  show "comparable a = comparable b \<longleftrightarrow> py_str a = py_str b" using c by simp
  show "duplicated_count (compare_messages (Some [a]) (Some [b])) = 1 \<longleftrightarrow> py_str a = py_str b"
    using c by (simp add: compare_messages_def Let_def)
  show "new_count (compare_messages (Some [a]) (Some [b])) = 0 \<longleftrightarrow> py_str a = py_str b"
    using c by (auto simp add: compare_messages_def Let_def)
  show "is_complete_subset (check_complete_containment (Some [a]) (Some [b]))
              \<longleftrightarrow> py_str a = py_str b"
    using c by (simp add: check_complete_containment_def Let_def)
qed

theorem comparable_key_order_independent_witness:
  "same_up_to_key_order
      (PDict [(''role'', PStr ''user''),
              (''usage'', PDict [(''input'', PInt 3), (''output'', PInt 5)])])
      (PDict [(''usage'', PDict [(''output'', PInt 5), (''input'', PInt 3)]),
              (''role'', PStr ''user'')])
   \<and> comparable msg_nested = comparable msg_nested_reordered
   \<and> duplicated_count (compare_messages (Some [msg_nested]) (Some [msg_nested_reordered])) = 1
   \<and> new_count (compare_messages (Some [msg_nested]) (Some [msg_nested_reordered])) = 0
   \<and> is_complete_subset
        (check_complete_containment (Some [msg_nested]) (Some [msg_nested_reordered]))
   \<and> \<not> is_dict (PInt 1) \<and> \<not> is_dict (PStr ''1'')
   \<and> py_str (PInt 1) = py_str (PStr ''1'')
   \<and> duplicated_count (compare_messages (Some [PInt 1]) (Some [PStr ''1''])) = 1"
proof -
  have h1: "same_up_to_key_order
      (PDict [(''role'', PStr ''user''),
              (''usage'', PDict [(''input'', PInt 3), (''output'', PInt 5)])])
      (PDict [(''usage'', PDict [(''output'', PInt 5), (''input'', PInt 3)]),
              (''role'', PStr ''user'')])"
    by auto
  have h2: "\<not> is_dict (PInt 1) \<and> \<not> is_dict (PStr ''1'')" by simp
  have h3: "py_str (PInt 1) = py_str (PStr ''1'')" by code_simp
  from comparable_key_order_independent
    [of "[(''role'', PStr ''user''),
          (''usage'', PDict [(''input'', PInt 3), (''output'', PInt 5)])]"
        "[(''usage'', PDict [(''output'', PInt 5), (''input'', PInt 3)]),
          (''role'', PStr ''user'')]"
        "[]" "[]" None None "PInt 1" "PStr ''1''"] h1 h2 h3
  show ?thesis unfolding msg_nested_def msg_nested_reordered_def by blast
qed

section \<open>Properties of the temporal segmenter\<close>

lemma row_step_simps [simp]:
  "row_step thr (conversations, current, None) row =
     (conversations, current @ [row], Some (end_time row))"
  "row_step thr (conversations, current, Some last_end_time) row =
     (if gap_exceeds (total_seconds_between (start_time row) last_end_time) thr
      then ((if current \<noteq> [] then conversations @ [current] else conversations),
            [row], Some (end_time row))
      else (conversations, current @ [row], Some (end_time row)))"
  by (simp_all add: row_step_def)

lemma boundary_loop_timed:
  "has_start_time df \<Longrightarrow> has_end_time df \<Longrightarrow>
     boundary_loop df thr state rows = Inr (foldl (row_step thr) state rows)"
  by (induction rows arbitrary: state)
     (simp_all add: row_start_time_def row_end_time_def row_step_def)

lemma detect_timed:
  "has_start_time df \<Longrightarrow> has_end_time df \<Longrightarrow>
     detect_conversation_boundaries df thr = Inr (conversations_of (table_rows df) thr)"
  by (simp add: detect_conversation_boundaries_def boundary_loop_timed conversations_of_def)

lemma detect_no_end_time:
  "\<not> has_end_time df \<Longrightarrow> table_rows df \<noteq> [] \<Longrightarrow>
     detect_conversation_boundaries df thr = Inl KeyError"
  by (cases "table_rows df")
     (simp_all add: detect_conversation_boundaries_def row_start_time_def row_end_time_def)

lemma starts_after_exceeds:
  "starts_after d p c \<Longrightarrow> new_conversation_between thr p c \<longleftrightarrow> thr < d"
  by (auto simp: new_conversation_between_def split: option.splits)

lemma step_Some:
  "row_step thr (convs, cur, Some (end_time p)) c =
     (if new_conversation_between thr p c
      then ((if cur \<noteq> [] then convs @ [cur] else convs), [c], Some (end_time c))
      else (convs, cur @ [c], Some (end_time c)))"
  by (simp add: new_conversation_between_def)

lemma uniform_split:
  assumes "uniform_sequence d (p # xs)" "thr < d" "cur \<noteq> []"
  shows "final_conversations (foldl (row_step thr) (convs, cur, Some (end_time p)) xs)
           = convs @ [cur] @ map (\<lambda>x. [x]) xs"
  using assms
proof (induction xs arbitrary: convs cur p)
  case Nil
  then show ?case by simp
next
  case (Cons c xs)
  from Cons.prems have sa: "starts_after d p c" and u: "uniform_sequence d (c # xs)" by simp_all
  have nb: "new_conversation_between thr p c"
    using starts_after_exceeds [OF sa] Cons.prems(2) by simp
  have "final_conversations (foldl (row_step thr) (convs, cur, Some (end_time p)) (c # xs))
      = final_conversations (foldl (row_step thr) (convs @ [cur], [c], Some (end_time c)) xs)"
    using nb Cons.prems(3) by (simp add: step_Some del: row_step_simps)
  also have "\<dots> = (convs @ [cur]) @ [[c]] @ map (\<lambda>x. [x]) xs"
    by (rule Cons.IH [OF u Cons.prems(2)]) simp
  finally show ?case by simp
qed

lemma uniform_join:
  assumes "uniform_sequence d (p # xs)" "d \<le> thr" "cur \<noteq> []"
  shows "final_conversations (foldl (row_step thr) (convs, cur, Some (end_time p)) xs)
           = convs @ [cur @ xs]"
  using assms
proof (induction xs arbitrary: cur p)
  case Nil
  then show ?case by simp
next
  case (Cons c xs)
  from Cons.prems have sa: "starts_after d p c" and u: "uniform_sequence d (c # xs)" by simp_all
  have nb: "\<not> new_conversation_between thr p c"
    using starts_after_exceeds [OF sa] Cons.prems(2) by simp
  have "final_conversations (foldl (row_step thr) (convs, cur, Some (end_time p)) (c # xs))
      = final_conversations (foldl (row_step thr) (convs, cur @ [c], Some (end_time c)) xs)"
    using nb by (simp add: step_Some del: row_step_simps)
  also have "\<dots> = convs @ [(cur @ [c]) @ xs]"
    by (rule Cons.IH [OF u Cons.prems(2)]) simp
  finally show ?case by simp
qed

lemma detect_Cons:
  "conversations_of (x # xs) thr
     = final_conversations (foldl (row_step thr) ([], [x], Some (end_time x)) xs)"
  by (simp add: conversations_of_def)

lemma detect_uniform_split:
  "uniform_sequence d xs \<Longrightarrow> thr < d \<Longrightarrow> conversations_of xs thr = map (\<lambda>x. [x]) xs"
proof (cases xs)
  case Nil
  then show ?thesis by (simp add: conversations_of_def)
next
  case (Cons x ys)
  assume "uniform_sequence d xs" "thr < d"
  then show ?thesis
    using uniform_split [of d x ys thr "[x]" "[]"] Cons by (simp add: detect_Cons)
qed

lemma detect_uniform_join:
  "uniform_sequence d xs \<Longrightarrow> d \<le> thr \<Longrightarrow> xs \<noteq> [] \<Longrightarrow> conversations_of xs thr = [xs]"
proof (cases xs)
  case Nil
  assume "xs \<noteq> []"
  with Nil show ?thesis by simp
next
  case (Cons x ys)
  assume "uniform_sequence d xs" "d \<le> thr"
  then show ?thesis
    using uniform_join [of d x ys thr "[x]" "[]"] Cons by (simp add: detect_Cons)
qed

text \<open>The rows seen so far are the closed conversations followed by the current one.\<close>

lemma foldl_rows:
  "foldl (row_step thr) (convs, cur, le0) xs = (convs', cur', le1)
     \<Longrightarrow> concat convs' @ cur' = concat convs @ cur @ xs"
proof (induction xs arbitrary: convs cur le0)
  case Nil
  then show ?case by simp
next
  case (Cons x xs)
  obtain c1 u1 l1 where s: "row_step thr (convs, cur, le0) x = (c1, u1, l1)"
    by (cases "row_step thr (convs, cur, le0) x") auto
  then have "concat c1 @ u1 = concat convs @ cur @ [x]"
    by (cases le0) (auto split: if_splits)
  moreover have "concat convs' @ cur' = concat c1 @ u1 @ xs"
    using Cons.IH [of c1 u1 l1] Cons.prems s by simp
  ultimately show ?case by simp
qed

lemma final_tail:
  "cur \<noteq> [] \<Longrightarrow> \<exists>t segs. final_conversations (foldl (row_step thr) (convs, cur, Some le) xs)
      = convs @ [cur @ t] @ segs \<and> t @ concat segs = xs"
proof (induction xs arbitrary: convs cur le)
  case Nil
  then show ?case by simp
next
  case (Cons x xs)
  show ?case
  proof (cases "gap_exceeds (total_seconds_between (start_time x) le) thr")
    case True
    from Cons.IH [of "[x]" "convs @ [cur]" "end_time x"]
    obtain t segs where
      "final_conversations (foldl (row_step thr) (convs @ [cur], [x], Some (end_time x)) xs)
         = (convs @ [cur]) @ [[x] @ t] @ segs" "t @ concat segs = xs"
      by auto
    then have "final_conversations (foldl (row_step thr) (convs, cur, Some le) (x # xs))
         = convs @ [cur @ []] @ ((x # t) # segs) \<and> [] @ concat ((x # t) # segs) = x # xs"
      using True Cons.prems by simp
    then show ?thesis by blast
  next
    case False
    from Cons.IH [of "cur @ [x]" convs "end_time x"]
    obtain t segs where
      "final_conversations (foldl (row_step thr) (convs, cur @ [x], Some (end_time x)) xs)
         = convs @ [(cur @ [x]) @ t] @ segs" "t @ concat segs = xs"
      by auto
    then have "final_conversations (foldl (row_step thr) (convs, cur, Some le) (x # xs))
         = convs @ [cur @ (x # t)] @ segs \<and> (x # t) @ concat segs = x # xs"
      using False by simp
    then show ?thesis by blast
  qed
qed

lemma state_after_row:
  "\<exists>convs' s1. foldl (row_step thr) ([], [], None) (xs @ [p]) = (convs', s1 @ [p], Some (end_time p))
      \<and> concat convs' @ s1 = xs"
proof -
  obtain c0 u0 l0 where s0: "foldl (row_step thr) ([], [], None) xs = (c0, u0, l0)"
    by (cases "foldl (row_step thr) ([], [], None) xs") auto
  from foldl_rows [OF s0] have rows: "concat c0 @ u0 = xs" by simp
  show ?thesis
  proof (cases l0)
    case None
    then have "foldl (row_step thr) ([], [], None) (xs @ [p]) = (c0, u0 @ [p], Some (end_time p))"
      using s0 by simp
    with rows show ?thesis by blast
  next
    case (Some le)
    show ?thesis
    proof (cases "gap_exceeds (total_seconds_between (start_time p) le) thr")
      case False
      then have "foldl (row_step thr) ([], [], None) (xs @ [p]) = (c0, u0 @ [p], Some (end_time p))"
        using s0 Some by simp
      with rows show ?thesis by blast
    next
      case True
      then have "foldl (row_step thr) ([], [], None) (xs @ [p])
          = ((if u0 \<noteq> [] then c0 @ [u0] else c0), [] @ [p], Some (end_time p))"
        using s0 Some by simp
      moreover have "concat (if u0 \<noteq> [] then c0 @ [u0] else c0) @ [] = xs"
        using rows by auto
      ultimately show ?thesis by blast
    qed
  qed
qed

lemma adjacent_same:
  assumes "\<not> new_conversation_between thr p c"
  shows "\<exists>pre s1 s2 post. conversations_of (xs @ p # c # ys) thr
            = pre @ [s1 @ p # c # s2] @ post
          \<and> concat pre @ s1 = xs \<and> s2 @ concat post = ys"
proof -
  from state_after_row [of thr xs p] obtain convs' s1 where
    st: "foldl (row_step thr) ([], [], None) (xs @ [p]) = (convs', s1 @ [p], Some (end_time p))"
    and rows: "concat convs' @ s1 = xs" by blast
  have "foldl (row_step thr) ([], [], None) (xs @ p # c # ys)
      = foldl (row_step thr) (foldl (row_step thr) ([], [], None) (xs @ [p])) (c # ys)"
    by (simp del: row_step_simps)
  also have "\<dots> = foldl (row_step thr)
      (row_step thr (convs', s1 @ [p], Some (end_time p)) c) ys"
    by (simp only: st foldl_Cons)
  also have "\<dots> = foldl (row_step thr) (convs', (s1 @ [p]) @ [c], Some (end_time c)) ys"
    using assms by (simp add: step_Some del: row_step_simps)
  finally have f: "conversations_of (xs @ p # c # ys) thr
      = final_conversations (foldl (row_step thr) (convs', (s1 @ [p]) @ [c], Some (end_time c)) ys)"
    by (simp only: conversations_of_def)
  from final_tail [of "(s1 @ [p]) @ [c]" thr convs' "end_time c" ys]
  obtain t segs where
    "final_conversations (foldl (row_step thr) (convs', (s1 @ [p]) @ [c], Some (end_time c)) ys)
       = convs' @ [((s1 @ [p]) @ [c]) @ t] @ segs" "t @ concat segs = ys"
    by auto
  with f rows have "conversations_of (xs @ p # c # ys) thr
            = convs' @ [s1 @ p # c # t] @ segs
          \<and> concat convs' @ s1 = xs \<and> t @ concat segs = ys" by simp
  then show ?thesis by blast
qed

lemma adjacent_split:
  assumes "new_conversation_between thr p c"
  shows "\<exists>pre s1 s2 post. conversations_of (xs @ p # c # ys) thr
            = pre @ [s1 @ [p], c # s2] @ post
          \<and> concat pre @ s1 = xs \<and> s2 @ concat post = ys"
proof -
  from state_after_row [of thr xs p] obtain convs' s1 where
    st: "foldl (row_step thr) ([], [], None) (xs @ [p]) = (convs', s1 @ [p], Some (end_time p))"
    and rows: "concat convs' @ s1 = xs" by blast
  have "foldl (row_step thr) ([], [], None) (xs @ p # c # ys)
      = foldl (row_step thr) (foldl (row_step thr) ([], [], None) (xs @ [p])) (c # ys)"
    by (simp del: row_step_simps)
  also have "\<dots> = foldl (row_step thr)
      (row_step thr (convs', s1 @ [p], Some (end_time p)) c) ys"
    by (simp only: st foldl_Cons)
  also have "\<dots> = foldl (row_step thr) (convs' @ [s1 @ [p]], [c], Some (end_time c)) ys"
    using assms by (simp add: step_Some del: row_step_simps)
  finally have f: "conversations_of (xs @ p # c # ys) thr
      = final_conversations (foldl (row_step thr) (convs' @ [s1 @ [p]], [c], Some (end_time c)) ys)"
    by (simp only: conversations_of_def)
  from final_tail [of "[c]" thr "convs' @ [s1 @ [p]]" "end_time c" ys]
  obtain t segs where
    "final_conversations (foldl (row_step thr) (convs' @ [s1 @ [p]], [c], Some (end_time c)) ys)
       = (convs' @ [s1 @ [p]]) @ [[c] @ t] @ segs" "t @ concat segs = ys"
    by auto
  with f rows have "conversations_of (xs @ p # c # ys) thr
            = convs' @ [s1 @ [p], c # t] @ segs
          \<and> concat convs' @ s1 = xs \<and> t @ concat segs = ys" by simp
  then show ?thesis by blast
qed

lemma concat_conversations_of: "concat (conversations_of rows thr) = rows"
proof -
  obtain convs cur le1 where s: "foldl (row_step thr) ([], [], None) rows = (convs, cur, le1)"
    by (cases "foldl (row_step thr) ([], [], None) rows") auto
  from foldl_rows [OF s] have "concat convs @ cur = rows" by simp
  then show ?thesis by (cases "cur = []") (simp_all add: conversations_of_def s)
qed

text \<open>
  C7. On a table with both timestamp columns, a sequence in which every span starts
  exactly \<open>threshold + 1\<close> seconds after the end of the one before it is cut into
  one conversation per span, and a sequence of at least one span in which every span
  starts one second after the end of the one before it stays, with the threshold 300,
  one conversation holding all of it. In general two neighbouring rows are separated
  exactly when the gap between them exceeds the threshold.
\<close>

theorem segmenter_uniform_sequences:
  "(has_start_time df \<and> has_end_time df \<and> uniform_sequence (thr + 1) (table_rows df) \<longrightarrow>
      detect_conversation_boundaries df thr = Inr (map (\<lambda>x. [x]) (table_rows df))
      \<and> length (map (\<lambda>x. [x]) (table_rows df)) = length (table_rows df))
   \<and> (has_start_time df \<and> has_end_time df \<and> table_rows df \<noteq> []
        \<and> uniform_sequence 1 (table_rows df) \<longrightarrow>
      detect_conversation_boundaries df 300 = Inr [table_rows df])
   \<and> (has_start_time df \<and> has_end_time df \<and> table_rows df = ys @ p # c # zs
        \<and> new_conversation_between thr p c \<longrightarrow>
        (\<exists>pre s1 s2 post. detect_conversation_boundaries df thr
            = Inr (pre @ [s1 @ [p], c # s2] @ post)
          \<and> concat pre @ s1 = ys \<and> s2 @ concat post = zs))
   \<and> (has_start_time df \<and> has_end_time df \<and> table_rows df = ys @ p # c # zs
        \<and> \<not> new_conversation_between thr p c \<longrightarrow>
        (\<exists>pre s1 s2 post. detect_conversation_boundaries df thr
            = Inr (pre @ [s1 @ p # c # s2] @ post)
          \<and> concat pre @ s1 = ys \<and> s2 @ concat post = zs))"
proof (intro conjI impI)
  assume h: "has_start_time df \<and> has_end_time df \<and> uniform_sequence (thr + 1) (table_rows df)"
  then have "conversations_of (table_rows df) thr = map (\<lambda>x. [x]) (table_rows df)"
    by (intro detect_uniform_split [of "thr + 1"]) simp_all
  with h show "detect_conversation_boundaries df thr = Inr (map (\<lambda>x. [x]) (table_rows df))"
    by (simp add: detect_timed)
  show "length (map (\<lambda>x. [x]) (table_rows df)) = length (table_rows df)" by simp
next
  assume h: "has_start_time df \<and> has_end_time df \<and> table_rows df \<noteq> []
        \<and> uniform_sequence 1 (table_rows df)"
  then have "conversations_of (table_rows df) 300 = [table_rows df]"
    using detect_uniform_join [of 1 "table_rows df" 300] by simp
  with h show "detect_conversation_boundaries df 300 = Inr [table_rows df]"
    by (simp add: detect_timed)
next
  assume h: "has_start_time df \<and> has_end_time df \<and> table_rows df = ys @ p # c # zs
        \<and> new_conversation_between thr p c"
  then have d: "detect_conversation_boundaries df thr = Inr (conversations_of (ys @ p # c # zs) thr)"
    by (simp add: detect_timed)
  from h have "new_conversation_between thr p c" by simp
  from adjacent_split [OF this, of ys zs] d
  show "\<exists>pre s1 s2 post. detect_conversation_boundaries df thr
            = Inr (pre @ [s1 @ [p], c # s2] @ post)
          \<and> concat pre @ s1 = ys \<and> s2 @ concat post = zs"
    by auto
next
  assume h: "has_start_time df \<and> has_end_time df \<and> table_rows df = ys @ p # c # zs
        \<and> \<not> new_conversation_between thr p c"
  then have d: "detect_conversation_boundaries df thr = Inr (conversations_of (ys @ p # c # zs) thr)"
    by (simp add: detect_timed)
  from h have "\<not> new_conversation_between thr p c" by simp
  from adjacent_same [OF this, of ys zs] d
  show "\<exists>pre s1 s2 post. detect_conversation_boundaries df thr
            = Inr (pre @ [s1 @ p # c # s2] @ post)
          \<and> concat pre @ s1 = ys \<and> s2 @ concat post = zs"
    by auto
qed

theorem segmenter_uniform_sequences_witness:
  "has_start_time (timed_table [span_a, span_late]) \<and> has_end_time (timed_table [span_a, span_late])
   \<and> uniform_sequence (300 + 1) (table_rows (timed_table [span_a, span_late]))
   \<and> detect_conversation_boundaries (timed_table [span_a, span_late]) 300
       = Inr [[span_a], [span_late]]
   \<and> table_rows (timed_table [span_a, span_soon]) \<noteq> []
   \<and> uniform_sequence 1 (table_rows (timed_table [span_a, span_soon]))
   \<and> detect_conversation_boundaries (timed_table [span_a, span_soon]) 300
       = Inr [[span_a, span_soon]]
   \<and> new_conversation_between 300 span_a span_late
   \<and> \<not> new_conversation_between 300 span_a span_soon"
proof -
  have c: "has_start_time (timed_table [span_a, span_late])"
    "has_end_time (timed_table [span_a, span_late])"
    "has_start_time (timed_table [span_a, span_soon])"
    "has_end_time (timed_table [span_a, span_soon])"
    by (simp_all add: timed_table_def)
  have h1: "uniform_sequence (300 + 1) (table_rows (timed_table [span_a, span_late]))"
    by (simp add: timed_table_def span_a_def span_late_def mk_span_def)
  have h2: "table_rows (timed_table [span_a, span_soon]) \<noteq> []
      \<and> uniform_sequence 1 (table_rows (timed_table [span_a, span_soon]))"
    by (simp add: timed_table_def span_a_def span_soon_def mk_span_def)
  have h3: "new_conversation_between 300 span_a span_late"
    by (simp add: new_conversation_between_def span_a_def span_late_def mk_span_def)
  have h4: "\<not> new_conversation_between 300 span_a span_soon"
    by (simp add: new_conversation_between_def span_a_def span_soon_def mk_span_def)
  from segmenter_uniform_sequences
    [of "timed_table [span_a, span_late]" 300 "[]" span_a span_late "[]"] c h1
  have c1: "detect_conversation_boundaries (timed_table [span_a, span_late]) 300
       = Inr [[span_a], [span_late]]"
    by (simp add: timed_table_def)
  from segmenter_uniform_sequences
    [of "timed_table [span_a, span_soon]" 300 "[]" span_a span_soon "[]"] c h2
  have c2: "detect_conversation_boundaries (timed_table [span_a, span_soon]) 300
       = Inr [[span_a, span_soon]]"
    by (simp add: timed_table_def)
  from c h1 h2 h3 h4 c1 c2 show ?thesis by (intro conjI) simp_all
qed

text \<open>
  C8, as the code has it. On a table that has the \<open>start_time\<close> and \<open>end_time\<close>
  columns the function returns its result without an error, and a span whose
  \<open>start_time\<close> is missing, or whose predecessor's \<open>end_time\<close> is missing, never
  starts a new conversation: whatever the threshold and the rows around them, the two
  neighbours end up next to each other in the same conversation.
\<close>

theorem missing_timestamp_no_new_segment:
  "(has_start_time df \<and> has_end_time df \<longrightarrow>
      (\<exists>segments. detect_conversation_boundaries df thr = Inr segments
         \<and> concat segments = table_rows df))
   \<and> (has_start_time df \<and> has_end_time df \<and> table_rows df = xs @ p # c # ys
        \<and> (start_time c = None \<or> end_time p = None) \<longrightarrow>
      \<not> new_conversation_between thr p c
      \<and> (\<exists>pre s1 s2 post. detect_conversation_boundaries df thr
            = Inr (pre @ [s1 @ p # c # s2] @ post)
          \<and> concat pre @ s1 = xs \<and> s2 @ concat post = ys))"
proof (intro conjI impI)
  assume h: "has_start_time df \<and> has_end_time df"
  then have "detect_conversation_boundaries df thr = Inr (conversations_of (table_rows df) thr)"
    by (simp add: detect_timed)
  moreover have "concat (conversations_of (table_rows df) thr) = table_rows df"
    by (rule concat_conversations_of)
  ultimately show "\<exists>segments. detect_conversation_boundaries df thr = Inr segments
         \<and> concat segments = table_rows df"
    by blast
next
  assume h: "has_start_time df \<and> has_end_time df \<and> table_rows df = xs @ p # c # ys
        \<and> (start_time c = None \<or> end_time p = None)"
  then have "total_seconds_between (start_time c) (end_time p) = None"
    by (cases "start_time c"; cases "end_time p") auto
  then show nb: "\<not> new_conversation_between thr p c"
    by (simp add: new_conversation_between_def)
  from h have d: "detect_conversation_boundaries df thr
      = Inr (conversations_of (xs @ p # c # ys) thr)"
    by (simp add: detect_timed)
  from adjacent_same [OF nb, of xs ys] d
  show "\<exists>pre s1 s2 post. detect_conversation_boundaries df thr
            = Inr (pre @ [s1 @ p # c # s2] @ post)
          \<and> concat pre @ s1 = xs \<and> s2 @ concat post = ys"
    by auto
qed

theorem missing_timestamp_no_new_segment_witness:
  "has_start_time (timed_table [span_a, span_no_start, span_late])
   \<and> has_end_time (timed_table [span_a, span_no_start, span_late])
   \<and> table_rows (timed_table [span_a, span_no_start, span_late])
       = [] @ span_a # span_no_start # [span_late]
   \<and> (start_time span_no_start = None \<or> end_time span_a = None)
   \<and> \<not> new_conversation_between 300 span_a span_no_start
   \<and> detect_conversation_boundaries (timed_table [span_a, span_no_start, span_late]) 300
       = Inr [[span_a, span_no_start], [span_late]]
   \<and> detect_conversation_boundaries (timed_table [span_no_end, span_late]) 300
       = Inr [[span_no_end, span_late]]"
proof -
  have c: "has_start_time (timed_table [span_a, span_no_start, span_late])"
    "has_end_time (timed_table [span_a, span_no_start, span_late])"
    "table_rows (timed_table [span_a, span_no_start, span_late])
       = [] @ span_a # span_no_start # [span_late]"
    by (simp_all add: timed_table_def)
  have h: "start_time span_no_start = None \<or> end_time span_a = None"
    by (simp add: span_no_start_def mk_span_def)
  have e1: "detect_conversation_boundaries (timed_table [span_a, span_no_start, span_late]) 300
       = Inr [[span_a, span_no_start], [span_late]]"
    by (simp add: detect_conversation_boundaries_def timed_table_def row_start_time_def
        row_end_time_def span_a_def span_no_start_def span_late_def mk_span_def)
  have e2: "detect_conversation_boundaries (timed_table [span_no_end, span_late]) 300
       = Inr [[span_no_end, span_late]]"
    by (simp add: detect_conversation_boundaries_def timed_table_def row_start_time_def
        row_end_time_def span_no_end_def span_late_def mk_span_def)
  from missing_timestamp_no_new_segment
    [of "timed_table [span_a, span_no_start, span_late]" 300 "[]" span_a span_no_start
        "[span_late]"] c h
  have n: "\<not> new_conversation_between 300 span_a span_no_start" by blast
  from c h n e1 e2 show ?thesis by (intro conjI)
qed

text \<open>
  C8, as the claim states it, fails on a table that has no \<open>end_time\<close> column (every
  record lacks the field, so \<open>load_trace_data\<close> builds no such column): the function
  raises \<open>KeyError\<close> at \<open>row['end_time']\<close> on the first row.
\<close>

theorem segmenter_missing_column_raises:
  "detect_conversation_boundaries
     \<lparr> has_start_time = True, has_end_time = False, table_rows = [span_no_end, span_late] \<rparr> 300
     = Inl KeyError"
  by (simp add: detect_conversation_boundaries_def row_start_time_def row_end_time_def)

section \<open>Properties of the session id resolution and the grouping\<close>

















lemma metadata_session_id_Nil: "metadata_session_id [] = None"
  by (simp add: metadata_session_id_def dict_get_def session_from_def)

lemma extract_session_id_resolved:
  "extract_session_id row =
     (case resolved_session_id (metadata row) of Some s \<Rightarrow> Some s | None \<Rightarrow> row_trace_id row)"
  by (cases "metadata row")
     (simp_all add: extract_session_id_def resolved_session_id_def metadata_session_id_Nil
        del: row_trace_id.simps)

lemma mset_concat_groups:
  "distinct ks \<Longrightarrow>
     mset (concat (map (\<lambda>k. filter (\<lambda>r. f r = Some k) xs) ks))
       = mset (filter (\<lambda>r. f r \<in> Some ` set ks) xs)"
proof (induction ks)
  case Nil
  then show ?case by simp
next
  case (Cons k ks)
  have "mset (filter (\<lambda>r. f r \<in> Some ` set (k # ks)) xs)
      = mset (filter (\<lambda>r. f r = Some k) xs) + mset (filter (\<lambda>r. f r \<in> Some ` set ks) xs)"
    using Cons.prems by (induction xs) auto
  with Cons show ?case by simp
qed

lemma group_keys:
  "set (sort (remdups (List.map_filter f xs))) = {k. \<exists>r\<in>set xs. f r = Some k}"
  by (auto simp: map_filter_def image_iff) (metis option.sel)+

lemma group_by_session_keys:
  "map fst (group_by_session df) = sort (remdups (List.map_filter extract_session_id df))"
  by (simp add: group_by_session_def comp_def)

lemma group_by_session_mem:
  "(k, g) \<in> set (group_by_session df) \<longleftrightarrow>
     (\<exists>r\<in>set df. extract_session_id r = Some k)
     \<and> g = filter (\<lambda>row. extract_session_id row = Some k) df"
proof (cases "df = []")
  case True
  then show ?thesis by (simp add: group_by_session_def)
next
  case False
  have "(k, g) \<in> set (group_by_session df) \<longleftrightarrow>
      k \<in> set (sort (remdups (List.map_filter extract_session_id df)))
      \<and> g = filter (\<lambda>row. extract_session_id row = Some k) df"
    using False by (auto simp: group_by_session_def)
  then show ?thesis by (simp only: group_keys) simp
qed

lemma group_by_session_mset:
  "mset (concat (map snd (group_by_session df)))
     = mset (filter (\<lambda>r. extract_session_id r \<noteq> None) df)"
proof (cases "df = []")
  case True
  then show ?thesis by (simp add: group_by_session_def)
next
  case False
  let ?ks = "sort (remdups (List.map_filter extract_session_id df))"
  have d: "distinct ?ks" by simp
  have "concat (map snd (group_by_session df))
      = concat (map (\<lambda>k. filter (\<lambda>r. extract_session_id r = Some k) df) ?ks)"
    using False by (simp add: group_by_session_def comp_def)
  also have "mset \<dots> = mset (filter (\<lambda>r. extract_session_id r \<in> Some ` set ?ks) df)"
    by (rule mset_concat_groups [OF d])
  also have "filter (\<lambda>r. extract_session_id r \<in> Some ` set ?ks) df
      = filter (\<lambda>r. extract_session_id r \<noteq> None) df"
    by (rule filter_cong) (auto simp only: group_keys)
  finally show ?thesis .
qed

text \<open>
  C3, as the code has it. The key of a span is the resolved session id when there is
  one, the empty string included, and the trace id otherwise. The keys of the groups
  are distinct; a span whose key is not missing is in the group of its key and in no
  other; a span whose key is missing (no session id and no trace id value) is in no
  group; and the groups together hold exactly the spans whose key is not missing,
  each as often as the table does.
\<close>

theorem group_by_session_partition:
  "extract_session_id row =
     (case resolved_session_id (metadata row) of Some s \<Rightarrow> Some s | None \<Rightarrow> row_trace_id row)
   \<and> distinct (map fst (group_by_session df))
   \<and> (\<forall>r\<in>set df. \<forall>k. extract_session_id r = Some k \<longrightarrow>
        (k, filter (\<lambda>row. extract_session_id row = Some k) df) \<in> set (group_by_session df)
        \<and> (\<forall>k' g'. (k', g') \<in> set (group_by_session df) \<and> r \<in> set g' \<longrightarrow> k' = k))
   \<and> (\<forall>r\<in>set df. extract_session_id r = None \<longrightarrow>
        (\<forall>k' g'. (k', g') \<in> set (group_by_session df) \<longrightarrow> r \<notin> set g'))
   \<and> mset (concat (map snd (group_by_session df)))
       = mset (filter (\<lambda>r. extract_session_id r \<noteq> None) df)"
proof (intro conjI ballI allI impI)
  show "extract_session_id row =
     (case resolved_session_id (metadata row) of Some s \<Rightarrow> Some s | None \<Rightarrow> row_trace_id row)"
    by (rule extract_session_id_resolved)
  show "distinct (map fst (group_by_session df))"
    by (simp only: group_by_session_keys) simp
  show "mset (concat (map snd (group_by_session df)))
       = mset (filter (\<lambda>r. extract_session_id r \<noteq> None) df)"
    by (rule group_by_session_mset)
next
  fix r k
  assume "r \<in> set df" "extract_session_id r = Some k"
  then show "(k, filter (\<lambda>row. extract_session_id row = Some k) df) \<in> set (group_by_session df)"
    by (auto simp: group_by_session_mem)
next
  fix r k k' g'
  assume "r \<in> set df" "extract_session_id r = Some k"
    "(k', g') \<in> set (group_by_session df) \<and> r \<in> set g'"
  then show "k' = k" by (auto simp: group_by_session_mem)
next
  fix r k' g'
  assume "r \<in> set df" "extract_session_id r = None" "(k', g') \<in> set (group_by_session df)"
  then show "r \<notin> set g'" by (auto simp: group_by_session_mem)
qed

theorem group_by_session_partition_witness:
  "span_with_session \<in> set [span_a, span_with_session, span_soon]
   \<and> extract_session_id span_with_session = Some ''42''
   \<and> (''42'', [span_with_session]) \<in> set (group_by_session [span_a, span_with_session, span_soon])
   \<and> group_by_session [span_a, span_with_session, span_soon]
       = [(''42'', [span_with_session]), (''T1'', [span_a, span_soon])]"
proof -
  have h1: "span_with_session \<in> set [span_a, span_with_session, span_soon]" by simp
  have h2: "extract_session_id span_with_session = Some ''42''" by code_simp
  have e: "filter (\<lambda>row. extract_session_id row = Some ''42'') [span_a, span_with_session, span_soon]
      = [span_with_session]" by code_simp
  have g: "group_by_session [span_a, span_with_session, span_soon]
       = [(''42'', [span_with_session]), (''T1'', [span_a, span_soon])]" by code_simp
  from group_by_session_partition [of span_a "[span_a, span_with_session, span_soon]"] h1 h2
  have "(''42'', filter (\<lambda>row. extract_session_id row = Some ''42'')
           [span_a, span_with_session, span_soon])
         \<in> set (group_by_session [span_a, span_with_session, span_soon])" by blast
  with e have "(''42'', [span_with_session])
      \<in> set (group_by_session [span_a, span_with_session, span_soon])" by simp
  with h1 h2 g show ?thesis by (intro conjI)
qed

text \<open>
  C3, as the claim states it, fails twice. A \<open>user_id\<close> that ends in \<open>session_\<close>
  gives the empty string as the key, where the claim has the trace id \<open>T1\<close>; and a
  span without metadata whose trace id value is missing is in no session.
\<close>

theorem group_by_session_empty_key_and_loss:
  "extract_session_id span_empty_session = Some []
   \<and> claimed_session_key span_empty_session = Some ''T1''
   \<and> group_by_session [span_empty_session] = [([], [span_empty_session])]
   \<and> group_by_session [span_no_trace] = []"
  by code_simp

section \<open>Properties of the span tree builder\<close>








lemma root_no_anc: "parent_id r = None \<Longrightarrow> anc df (Suc n) r = None"
  by simp





































lemma self_parent_never_returns:
  "build_span_tree k [span_self_parent] ''a'' ind = None"
proof (induction k arbitrary: ind)
  case 0
  show ?case by simp
next
  case (Suc k)
  have c: "children_of [span_self_parent] ''a'' = [span_self_parent]"
    by (simp add: children_of_def sort_values_start_time_def span_self_parent_def mk_span_def)
  have i: "span_id span_self_parent = ''a''" by (simp add: span_self_parent_def mk_span_def)
  show ?case by (simp add: c i Suc.IH)
qed


end
